theory Spec2Isabelle
  imports Complex_Main "HOL-Library.Log_Nat"
begin

section \<open>The polar generator script (polargenerator.py)\<close>

text \<open>
  The script drives an external solver once per Reynolds number and then tidies the
  working directory. The working directory is the only state the script owns: it is
  modelled as an association list from file names to contents, whose order is the order
  in which \<^verbatim>\<open>os.listdir\<close> reports the entries (the order is arbitrary in Python, so
  every statement below is made for every order). A well-formed directory has pairwise
  distinct names. Only regular files are modelled, and a path is the name of an entry of
  the working directory.

  An exception of the script is a value \<open>Inl (e, d)\<close>: the error together with the
  directory as the exception leaves it, since nothing is rolled back.
\<close>

subsection \<open>Errors and the working directory\<close>

datatype error =
    IndexError
  | ValueError string
  | FileNotFoundError string

type_synonym 'c dir = "(string \<times> 'c) list"

type_synonym 'c outcome = "(error \<times> 'c dir) + 'c dir"

definition os_listdir :: "'c dir \<Rightarrow> string list" where
  "os_listdir d = map fst d"

definition os_path_exists :: "string \<Rightarrow> 'c dir \<Rightarrow> bool" where
  "os_path_exists f d = (f \<in> set (os_listdir d))"

text \<open>\<^verbatim>\<open>os.remove\<close> raises when the file is missing.\<close>

definition os_remove :: "string \<Rightarrow> 'c dir \<Rightarrow> 'c outcome" where
  "os_remove f d =
     (if os_path_exists f d then Inr (filter (\<lambda>e. fst e \<noteq> f) d)
      else Inl (FileNotFoundError f, d))"

text \<open>
  \<^verbatim>\<open>os.rename\<close> raises when the source is missing; renaming a file onto itself changes
  nothing; otherwise the source name disappears and the destination holds its content.
\<close>

definition os_rename :: "string \<Rightarrow> string \<Rightarrow> 'c dir \<Rightarrow> 'c outcome" where
  "os_rename old new d =
     (case map_of d old of
        None \<Rightarrow> Inl (FileNotFoundError old, d)
      | Some c \<Rightarrow>
          Inr (if old = new then d
               else filter (\<lambda>e. fst e \<noteq> old \<and> fst e \<noteq> new) d @ [(new, c)]))"

text \<open>Python's \<^verbatim>\<open>s.startswith(p)\<close>, case-sensitive.\<close>

definition startswith :: "string \<Rightarrow> string \<Rightarrow> bool" where
  "startswith s p = (take (length p) s = p)"

subsection \<open>safe\_remove, safe\_rename and cleanup\<close>

definition safe_remove :: "string \<Rightarrow> 'c dir \<Rightarrow> 'c outcome" where
  "safe_remove file d = (if os_path_exists file d then os_remove file d else Inr d)"

definition safe_rename :: "string \<Rightarrow> string \<Rightarrow> 'c dir \<Rightarrow> 'c outcome" where
  "safe_rename old new d =
     (case (if os_path_exists new d then os_remove new d else Inr d) of
        Inl e \<Rightarrow> Inl e
      | Inr d' \<Rightarrow> os_rename old new d')"

text \<open>
  The loop of \<^verbatim>\<open>cleanup\<close> over the listing, which is taken once, before the first
  rename.
\<close>

fun rename_files :: "string \<Rightarrow> string list \<Rightarrow> 'c dir \<Rightarrow> 'c outcome" where
  "rename_files airfoil [] d = Inr d"
| "rename_files airfoil (file # rest) d =
     (if startswith file ''Coordinates_'' then
        (case safe_rename file (airfoil @ ''.dat'') d of
           Inl e \<Rightarrow> Inl e
         | Inr d' \<Rightarrow> rename_files airfoil rest d')
      else if startswith file ''Polar_'' then
        (case safe_rename file (file @ ''.txt'') d of
           Inl e \<Rightarrow> Inl e
         | Inr d' \<Rightarrow> rename_files airfoil rest d')
      else rename_files airfoil rest d)"

definition cleanup :: "string \<Rightarrow> 'c dir \<Rightarrow> 'c outcome" where
  "cleanup airfoil d =
     (case safe_remove '':00.bl'' d of
        Inl e \<Rightarrow> Inl e
      | Inr d1 \<Rightarrow> rename_files airfoil (os_listdir d1) d1)"

subsection \<open>Python floats\<close>

text \<open>
  A Python float is a binary64 number. It is modelled by the rational it denotes, and
  every float operation is the exact operation followed by rounding to the nearest
  number with a 53-bit significand, ties to even. Overflow and subnormal numbers are
  outside the model; the script's numbers are far from both.
\<close>

text \<open>For \<open>0 < x\<close>, the exponent \<open>k\<close> with \<open>2 powi k \<le> x < 2 powi (k + 1)\<close>.\<close>

definition ilog2 :: "rat \<Rightarrow> int" where
  "ilog2 x =
     (case quotient_of x of (p, q) \<Rightarrow>
        let k = bitlen p - bitlen q in if 2 powi k \<le> x then k else k - 1)"

definition round_half_even :: "rat \<Rightarrow> int" where
  "round_half_even x =
     (let n = \<lfloor>x\<rfloor>; r = x - of_int n
      in if r < 1 / 2 then n
         else if 1 / 2 < r then n + 1
         else if even n then n else n + 1)"

definition fl :: "rat \<Rightarrow> rat" where
  "fl x =
     (if x = 0 then 0
      else let u = 2 powi (ilog2 \<bar>x\<bar> - 52)
           in sgn x * of_int (round_half_even (\<bar>x\<bar> / u)) * u)"

definition fadd :: "rat \<Rightarrow> rat \<Rightarrow> rat" where
  "fadd x y = fl (x + y)"

definition fsub :: "rat \<Rightarrow> rat \<Rightarrow> rat" where
  "fsub x y = fl (x - y)"

definition fmul :: "rat \<Rightarrow> rat \<Rightarrow> rat" where
  "fmul x y = fl (x * y)"

definition fdiv :: "rat \<Rightarrow> rat \<Rightarrow> rat" where
  "fdiv x y = fl (x / y)"

text \<open>
  \<^verbatim>\<open>numpy.arange(start, stop, step)\<close> on floats: the length is the ceiling of
  \<open>(stop - start) / step\<close>, the first two entries are \<open>start\<close> and \<open>start + step\<close>,
  and entry \<open>i\<close> is the first entry plus \<open>i\<close> times the difference of the first two.
\<close>

definition np_arange :: "rat \<Rightarrow> rat \<Rightarrow> rat \<Rightarrow> rat list" where
  "np_arange start stop step =
     (let n = nat \<lceil>fdiv (fsub stop start) step\<rceil>;
          delta = fsub (fadd start step) start
      in map (\<lambda>i. fadd start (fmul (of_nat i) delta)) [0..<n])"

subsection \<open>The solver call and main\<close>

text \<open>
  The arguments of one \<^verbatim>\<open>xf.call\<close>. The solver itself is an external program: it is a
  parameter \<open>xf\<close> of the model, an arbitrary function from the arguments of the call
  and the working directory to the working directory it leaves (an exception raised
  inside the solver, which the script does not catch, is outside the model). The state
  of a run is the working directory and the log of the solver calls issued so far.
\<close>

record xfoil_call =
  airfoil :: string
  alfas :: "rat list"
  output' :: string
  Reynolds :: rat
  plots :: bool
  NACA :: bool
  iteration :: int

record 'c state =
  files :: "'c dir"
  calls :: "xfoil_call list"

type_synonym 'c solver = "xfoil_call \<Rightarrow> 'c dir \<Rightarrow> 'c dir"

type_synonym 'c result = "(error \<times> 'c state) + 'c state"

definition xf_call :: "'c solver \<Rightarrow> xfoil_call \<Rightarrow> 'c state \<Rightarrow> 'c state" where
  "xf_call xf c s = \<lparr>files = xf c (files s), calls = calls s @ [c]\<rparr>"

text \<open>\<^verbatim>\<open>sys.argv[1]\<close> raises IndexError when no argument was given.\<close>

definition parse_inputs :: "string list \<Rightarrow> error + string" where
  "parse_inputs argv = (if 1 < length argv then Inr (argv ! 1) else Inl IndexError)"

text \<open>
  \<^verbatim>\<open>[re * 100000 for re in [0.1, 0.5, 1]]\<close>: two float products and, for the last
  entry, a product of integers, which is exact.
\<close>

definition reynolds :: "rat list" where
  "reynolds = map (\<lambda>re. fmul re 100000) [fl (1 / 10), fl (1 / 2), 1]"

definition aoa :: "rat list" where
  "aoa = np_arange (- 20) 25 (fl (1 / 2))"

text \<open>The loop of \<^verbatim>\<open>main\<close> over the Reynolds numbers (the progress line is not modelled).\<close>

fun polar_loop ::
  "'c solver \<Rightarrow> string \<Rightarrow> rat list \<Rightarrow> rat list \<Rightarrow> 'c state \<Rightarrow> 'c result" where
  "polar_loop xf a sweep [] s = Inr s"
| "polar_loop xf a sweep (re # rest) s =
     (if startswith a ''naca'' then
        polar_loop xf a sweep rest
          (xf_call xf \<lparr>airfoil = a, alfas = sweep, output' = ''Polar'', Reynolds = re,
                        plots = False, NACA = True, iteration = 5000\<rparr> s)
      else if os_path_exists a (files s) \<or> os_path_exists (a @ ''.dat'') (files s) then
        polar_loop xf a sweep rest
          (xf_call xf \<lparr>airfoil = a, alfas = sweep, output' = ''Polar'', Reynolds = re,
                        plots = False, NACA = False, iteration = 5000\<rparr> s)
      else Inl (ValueError ''Airfoil file not foud'', s))"

definition main :: "'c solver \<Rightarrow> string list \<Rightarrow> 'c state \<Rightarrow> 'c result" where
  "main xf argv s =
     (case parse_inputs argv of
        Inl e \<Rightarrow> Inl (e, s)
      | Inr a \<Rightarrow>
          (case polar_loop xf a aoa reynolds s of
             Inl e \<Rightarrow> Inl e
           | Inr s' \<Rightarrow>
               (case cleanup a (files s') of
                  Inl (e, d) \<Rightarrow> Inl (e, s'\<lparr>files := d\<rparr>)
                | Inr d \<Rightarrow> Inr (s'\<lparr>files := d\<rparr>))))"

text \<open>The state a run ends in, whether it returned or raised.\<close>

definition final_state :: "'c result \<Rightarrow> 'c state" where
  "final_state r = (case r of Inl (e, s) \<Rightarrow> s | Inr s \<Rightarrow> s)"

text \<open>The directory an outcome ends in, whether the operation returned or raised.\<close>

definition dir_of :: "'c outcome \<Rightarrow> 'c dir" where
  "dir_of r = (case r of Inl (e, d) \<Rightarrow> d | Inr d \<Rightarrow> d)"

section \<open>Properties of the file operations\<close>

lemma dir_of_simps: "dir_of (Inl (e, d)) = d" "dir_of (Inr d) = d"
  by (simp_all add: dir_of_def)

lemma os_path_exists_iff: "os_path_exists f d \<longleftrightarrow> f \<in> fst ` set d"
  by (simp add: os_path_exists_def os_listdir_def)

lemma os_path_exists_map_of: "os_path_exists f d \<longleftrightarrow> map_of d f \<noteq> None"
  by (simp add: os_path_exists_iff map_of_eq_None_iff)

lemma startswith_append: "startswith f p \<Longrightarrow> startswith (f @ x) p"
proof -
  assume h: "startswith f p"
  then have "length (take (length p) f) = length p"
    by (simp add: startswith_def)
  then have "length p \<le> length f" by simp
  with h show ?thesis by (simp add: startswith_def)
qed

lemma safe_remove_eq: "safe_remove f d = Inr (filter (\<lambda>e. fst e \<noteq> f) d)"
proof (cases "os_path_exists f d")
  case True
  then show ?thesis by (simp add: safe_remove_def os_remove_def)
next
  case False
  then have "filter (\<lambda>e. fst e \<noteq> f) d = d"
    by (auto simp: os_path_exists_iff filter_id_conv)
  with False show ?thesis by (simp add: safe_remove_def)
qed

lemma map_of_filter_fst:
  "map_of (filter (\<lambda>e. P (fst e)) d) n = (if P n then map_of d n else None)"
  by (induction d) auto

lemma safe_rename_eq:
  "safe_rename old new d =
     (if old \<noteq> new \<and> os_path_exists old d
      then Inr (filter (\<lambda>e. fst e \<noteq> old \<and> fst e \<noteq> new) d @ [(new, the (map_of d old))])
      else Inl (FileNotFoundError old, filter (\<lambda>e. fst e \<noteq> new) d))"
proof -
  let ?d = "filter (\<lambda>e. fst e \<noteq> new) d"
  have step: "safe_rename old new d = os_rename old new ?d"
  proof (cases "os_path_exists new d")
    case True
    then show ?thesis by (simp add: safe_rename_def os_remove_def)
  next
    case False
    then have "?d = d" by (auto simp: os_path_exists_iff filter_id_conv)
    with False show ?thesis by (simp add: safe_rename_def)
  qed
  have look: "map_of ?d old = (if old \<noteq> new then map_of d old else None)"
    by (rule map_of_filter_fst [where P = "\<lambda>x. x \<noteq> new"])
  show ?thesis
    unfolding step os_rename_def look
    by (auto simp: os_path_exists_map_of conj_commute conj_left_commute split: option.splits)
qed


lemma startswith_append_iff:
  assumes "x \<noteq> []" "hd x \<notin> set p"
  shows "startswith (a @ x) p \<longleftrightarrow> startswith a p"
proof (cases "length p \<le> length a")
  case True
  then show ?thesis by (simp add: startswith_def)
next
  case False
  then have k: "0 < length p - length a" by simp
  have "a @ take (length p - length a) x \<noteq> p"
  proof
    assume eq: "a @ take (length p - length a) x = p"
    from assms(1) k have "hd x \<in> set (take (length p - length a) x)"
      by (cases x; cases "length p - length a") auto
    with eq have "hd x \<in> set p" by (metis Un_iff set_append)
    with assms(2) show False by simp
  qed
  moreover from False have "take (length p) a \<noteq> p"
    by (auto dest: arg_cong [where f = length])
  ultimately show ?thesis using False by (simp add: startswith_def)
qed

lemma dat_not_bl: "a @ ''.dat'' \<noteq> '':00.bl''"
  by (auto dest: arg_cong [where f = last])

lemma map_of_filter_ne:
  "map_of (filter (\<lambda>e. fst e \<noteq> f) d) n = (if n \<noteq> f then map_of d n else None)"
  by (rule map_of_filter_fst [where P = "\<lambda>x. x \<noteq> f"])

lemma map_of_filter_ne2:
  "map_of (filter (\<lambda>e. fst e \<noteq> f \<and> fst e \<noteq> g) d) n =
     (if n \<noteq> f \<and> n \<noteq> g then map_of d n else None)"
  by (rule map_of_filter_fst [where P = "\<lambda>x. x \<noteq> f \<and> x \<noteq> g"])

lemma safe_rename_frame:
  "n \<noteq> old \<Longrightarrow> n \<noteq> new \<Longrightarrow> map_of (dir_of (safe_rename old new d)) n = map_of d n"
  by (simp add: safe_rename_eq dir_of_def map_of_filter_ne map_of_filter_ne2 map_add_def
      split: option.split)

lemma rename_files_frame:
  assumes "\<not> startswith n ''Coordinates_''" "\<not> startswith n ''Polar_''"
    and "n \<noteq> a @ ''.dat'' \<or> (\<forall>f\<in>set ls. \<not> startswith f ''Coordinates_'')"
  shows "map_of (dir_of (rename_files a ls d)) n = map_of d n"
  using assms(3)
proof (induction ls arbitrary: d)
  case Nil
  then show ?case by (simp add: dir_of_def)
next
  case (Cons f ls)
  have rest: "n \<noteq> a @ ''.dat'' \<or> (\<forall>f\<in>set ls. \<not> startswith f ''Coordinates_'')"
    using Cons.prems by auto
  show ?case
  proof (cases "startswith f ''Coordinates_''")
    case True
    with Cons.prems assms(1) have ne: "n \<noteq> f" "n \<noteq> a @ ''.dat''" by auto
    show ?thesis
    proof (cases "safe_rename f (a @ ''.dat'') d")
      case (Inl e)
      with safe_rename_frame [OF ne, of d] True show ?thesis by (simp add: dir_of_def)
    next
      case (Inr d')
      with safe_rename_frame [OF ne, of d] True Cons.IH [OF rest, of d']
      show ?thesis by (simp add: dir_of_def)
    qed
  next
    case noc: False
    show ?thesis
    proof (cases "startswith f ''Polar_''")
      case True
      with assms(2) have ne: "n \<noteq> f" "n \<noteq> f @ ''.txt''"
        using startswith_append by auto
      show ?thesis
      proof (cases "safe_rename f (f @ ''.txt'') d")
        case (Inl e)
        with safe_rename_frame [OF ne, of d] True noc show ?thesis by (simp add: dir_of_def)
      next
        case (Inr d')
        with safe_rename_frame [OF ne, of d] True noc Cons.IH [OF rest, of d']
        show ?thesis by (simp add: dir_of_def)
      qed
    next
      case False
      with noc Cons.IH [OF rest, of d] show ?thesis by simp
    qed
  qed
qed


lemma rename_files_error:
  "rename_files a ls d = Inl (e, d') \<Longrightarrow>
     \<exists>f\<in>set ls. e = FileNotFoundError f \<and>
       (startswith f ''Coordinates_'' \<or> startswith f ''Polar_'')"
proof (induction ls arbitrary: d)
  case Nil
  then show ?case by simp
next
  case (Cons f ls)
  then show ?case
    by (auto simp: safe_rename_eq split: if_splits)
qed

lemma rename_files_noop:
  "\<forall>f\<in>set ls. \<not> startswith f ''Coordinates_'' \<and> \<not> startswith f ''Polar_'' \<Longrightarrow>
     rename_files a ls d = Inr d"
  by (induction ls) auto

lemma cleanup_noop:
  assumes "\<forall>f\<in>set (os_listdir d).
     f \<noteq> '':00.bl'' \<and> \<not> startswith f ''Coordinates_'' \<and> \<not> startswith f ''Polar_''"
  shows "cleanup a d = Inr d"
proof -
  from assms have "filter (\<lambda>e. fst e \<noteq> '':00.bl'') d = d"
    by (auto simp: os_listdir_def filter_id_conv)
  with assms show ?thesis
    by (simp add: cleanup_def safe_remove_eq rename_files_noop)
qed

lemma safe_rename_ok:
  assumes "old \<noteq> new" "os_path_exists old d"
  shows "\<exists>d'. safe_rename old new d = Inr d' \<and>
           set (os_listdir d') = insert new (set (os_listdir d) - {old})"
proof -
  let ?d = "filter (\<lambda>e. fst e \<noteq> old \<and> fst e \<noteq> new) d @ [(new, the (map_of d old))]"
  have "fst ` set ?d = insert new (fst ` set d - {old})"
    by force
  with assms show ?thesis
    by (simp add: safe_rename_eq os_listdir_def)
qed

lemma self_append_ne: "f \<noteq> f @ ''.txt''"
  by simp

lemma rename_files_ok:
  assumes "distinct ls" "set ls \<subseteq> set (os_listdir (d :: 'c dir))"
    and "\<forall>f\<in>set ls. startswith f ''Coordinates_'' \<longrightarrow> f \<noteq> a @ ''.dat''"
  shows "\<exists>d'. rename_files a ls d = Inr d'"
  using assms
proof (induction ls arbitrary: d)
  case Nil
  then show ?case by simp
next
  case (Cons f ls)
  have fd: "os_path_exists f d"
    using Cons.prems(2) by (simp add: os_path_exists_def)
  have dist: "distinct ls" and fls: "f \<notin> set ls"
    using Cons.prems(1) by simp_all
  have third: "\<forall>f\<in>set ls. startswith f ''Coordinates_'' \<longrightarrow> f \<noteq> a @ ''.dat''"
    using Cons.prems(3) by simp
  have step: "\<exists>d'. rename_files a ls d1 = Inr d'"
    if "set (os_listdir d1) = insert new (set (os_listdir d) - {f})" for new and d1 :: "'c dir"
  proof -
    from Cons.prems(2) fls that have "set ls \<subseteq> set (os_listdir d1)" by auto
    from Cons.IH [OF dist this third] show ?thesis .
  qed
  show ?case
  proof (cases "startswith f ''Coordinates_''")
    case True
    with Cons.prems(3) have "f \<noteq> a @ ''.dat''" by simp
    from safe_rename_ok [OF this fd] obtain d1 where
      "safe_rename f (a @ ''.dat'') d = Inr d1"
      "set (os_listdir d1) = insert (a @ ''.dat'') (set (os_listdir d) - {f})"
      by blast
    with step True show ?thesis by simp
  next
    case noc: False
    show ?thesis
    proof (cases "startswith f ''Polar_''")
      case True
      from safe_rename_ok [OF self_append_ne fd] obtain d1 where
        "safe_rename f (f @ ''.txt'') d = Inr d1"
        "set (os_listdir d1) = insert (f @ ''.txt'') (set (os_listdir d) - {f})"
        by blast
      with step True noc show ?thesis by simp
    next
      case False
      from Cons.prems(2) have "set ls \<subseteq> set (os_listdir d)" by simp
      from Cons.IH [OF dist this third] False noc show ?thesis by simp
    qed
  qed
qed

lemma rename_files_names:
  assumes "\<forall>f\<in>set ls. \<not> startswith f ''Polar_''"
    and "rename_files a ls d = Inr d'"
  shows "set (os_listdir d')
           \<subseteq> insert (a @ ''.dat'')
               (set (os_listdir d) - {f \<in> set ls. startswith f ''Coordinates_''})"
  using assms
proof (induction ls arbitrary: d)
  case Nil
  then show ?case by auto
next
  case (Cons f ls)
  have nop: "\<forall>f\<in>set ls. \<not> startswith f ''Polar_''" and nof: "\<not> startswith f ''Polar_''"
    using Cons.prems(1) by simp_all
  show ?case
  proof (cases "startswith f ''Coordinates_''")
    case True
    with Cons.prems(2) obtain d1 where d1: "safe_rename f (a @ ''.dat'') d = Inr d1"
      and rest: "rename_files a ls d1 = Inr d'"
      by (auto split: sum.splits)
    from d1 have ok: "f \<noteq> a @ ''.dat''" "os_path_exists f d"
      by (auto simp: safe_rename_eq split: if_splits)
    from safe_rename_ok [OF ok] d1
    have "set (os_listdir d1) = insert (a @ ''.dat'') (set (os_listdir d) - {f})"
      by auto
    with Cons.IH [OF nop rest] True show ?thesis by auto
  next
    case False
    with nof Cons.prems(2) have "rename_files a ls d = Inr d'" by simp
    from Cons.IH [OF nop this] False show ?thesis by auto
  qed
qed

lemma dat_prefix:
  "startswith (a @ ''.dat'') ''Coordinates_'' \<longleftrightarrow> startswith a ''Coordinates_''"
  "startswith (a @ ''.dat'') ''Polar_'' \<longleftrightarrow> startswith a ''Polar_''"
  by (rule startswith_append_iff; simp)+

text \<open>
  Where no \<^verbatim>\<open>Coordinates_\<close> file is itself named \<open>airfoil @ ''.dat''\<close>, the renames
  overwrite as intended: cleanup returns, the destination \<open>airfoil @ ''.dat''\<close> holds
  the content of the \<^verbatim>\<open>Coordinates_\<close> file that was listed last, and none of the listed
  \<^verbatim>\<open>Coordinates_\<close> files is left under its old name.
\<close>

lemma safe_rename_overwrites:
  assumes "old \<noteq> new" "map_of d old = Some c"
  shows "\<exists>d'. safe_rename old new d = Inr d' \<and> map_of d' new = Some c
           \<and> map_of d' old = None
           \<and> (\<forall>n. n \<noteq> old \<and> n \<noteq> new \<longrightarrow> map_of d' n = map_of d n)"
  using assms
  by (simp add: safe_rename_eq os_path_exists_map_of map_of_filter_ne2 map_add_def
      split: option.split)

lemma coordinates_not_polar: "startswith f ''Coordinates_'' \<Longrightarrow> \<not> startswith f ''Polar_''"
  by (cases f) (auto simp: startswith_def)

lemma rename_files_keeps:
  assumes "\<not> startswith n ''Polar_''"
    and "\<forall>f\<in>set ls. \<not> startswith f ''Coordinates_''"
  shows "map_of (dir_of (rename_files a ls d)) n = map_of d n"
  using assms(2)
proof (induction ls arbitrary: d)
  case Nil
  then show ?case by (simp add: dir_of_def)
next
  case (Cons f ls)
  then have noc: "\<not> startswith f ''Coordinates_''"
    and rest: "\<forall>f\<in>set ls. \<not> startswith f ''Coordinates_''"
    by simp_all
  show ?case
  proof (cases "startswith f ''Polar_''")
    case True
    with assms(1) have ne: "n \<noteq> f" "n \<noteq> f @ ''.txt''"
      using startswith_append by auto
    show ?thesis
    proof (cases "safe_rename f (f @ ''.txt'') d")
      case (Inl e)
      with safe_rename_frame [OF ne, of d] True noc show ?thesis by (simp add: dir_of_def)
    next
      case (Inr d')
      with safe_rename_frame [OF ne, of d] True noc Cons.IH [OF rest, of d']
      show ?thesis by (simp add: dir_of_def)
    qed
  next
    case False
    with noc Cons.IH [OF rest, of d] show ?thesis by simp
  qed
qed

lemma rename_files_last_coordinates:
  assumes "distinct ls" "set ls \<subseteq> set (os_listdir (d :: 'c dir))"
    and "\<forall>f\<in>set ls. startswith f ''Coordinates_'' \<longrightarrow> f \<noteq> a @ ''.dat''"
    and "\<not> startswith a ''Polar_''"
    and "filter (\<lambda>f. startswith f ''Coordinates_'') ls \<noteq> []"
  shows "\<exists>d'. rename_files a ls d = Inr d' \<and>
           map_of d' (a @ ''.dat'') = map_of d (last (filter (\<lambda>f. startswith f ''Coordinates_'') ls))"
  using assms(1,2,3,5)
proof (induction ls arbitrary: d)
  case Nil
  then show ?case by simp
next
  case (Cons f ls)
  let ?C = "\<lambda>f. startswith f ''Coordinates_''"
  have fd: "os_path_exists f d"
    using Cons.prems(2) by (simp add: os_path_exists_def)
  have dist: "distinct ls" and fls: "f \<notin> set ls"
    using Cons.prems(1) by simp_all
  have third: "\<forall>f\<in>set ls. ?C f \<longrightarrow> f \<noteq> a @ ''.dat''"
    using Cons.prems(3) by simp
  have nopolar: "\<not> startswith (a @ ''.dat'') ''Polar_''"
    using assms(4) by (simp add: dat_prefix)
  have step: "\<exists>d'. rename_files a ls d1 = Inr d' \<and>
           map_of d' (a @ ''.dat'') = map_of d (last (filter ?C ls))"
    if names: "set (os_listdir d1) = insert new (set (os_listdir d) - {f})"
      and keep: "\<forall>n. n \<noteq> f \<and> n \<noteq> new \<longrightarrow> map_of d1 n = map_of d n"
      and new: "new = a @ ''.dat'' \<or> startswith new ''Polar_''"
      and more: "filter ?C ls \<noteq> []"
    for new and d1 :: "'c dir"
  proof -
    from Cons.prems(2) fls names have sub: "set ls \<subseteq> set (os_listdir d1)" by auto
    from Cons.IH [OF dist sub third more] obtain d' where
      d': "rename_files a ls d1 = Inr d'"
      "map_of d' (a @ ''.dat'') = map_of d1 (last (filter ?C ls))"
      by blast
    let ?g = "last (filter ?C ls)"
    from more have g: "?g \<in> set ls" "?C ?g"
      using last_in_set [OF more] by auto
    with fls have "?g \<noteq> f" by auto
    moreover from g third new have "?g \<noteq> new"
      using coordinates_not_polar by auto
    ultimately have "map_of d1 ?g = map_of d ?g" using keep by simp
    with d' show ?thesis by simp
  qed
  show ?case
  proof (cases "?C f")
    case True
    with Cons.prems(3) have ne: "f \<noteq> a @ ''.dat''" by simp
    from fd obtain c where c: "map_of d f = Some c"
      by (auto simp: os_path_exists_map_of)
    from safe_rename_overwrites [OF ne c] obtain d1 where
      d1: "safe_rename f (a @ ''.dat'') d = Inr d1" "map_of d1 (a @ ''.dat'') = Some c"
      "\<forall>n. n \<noteq> f \<and> n \<noteq> a @ ''.dat'' \<longrightarrow> map_of d1 n = map_of d n"
      by blast
    from safe_rename_ok [OF ne fd] d1(1)
    have names: "set (os_listdir d1) = insert (a @ ''.dat'') (set (os_listdir d) - {f})"
      by auto
    show ?thesis
    proof (cases "filter ?C ls = []")
      case last: True
      then have noc: "\<forall>f\<in>set ls. \<not> ?C f"
        by (simp add: filter_empty_conv)
      from Cons.prems(2) fls names have sub: "set ls \<subseteq> set (os_listdir d1)" by auto
      from rename_files_ok [OF dist sub third] obtain d' where
        d': "rename_files a ls d1 = Inr d'" by blast
      from rename_files_keeps [OF nopolar noc, of a d1] d'
      have "map_of d' (a @ ''.dat'') = map_of d1 (a @ ''.dat'')"
        by (simp add: dir_of_def)
      with d1 d' c True last show ?thesis by simp
    next
      case False
      from step [OF names d1(3) _ False] d1(1) True False show ?thesis by simp
    qed
  next
    case noc: False
    with Cons.prems(4) have more: "filter ?C ls \<noteq> []" by simp
    show ?thesis
    proof (cases "startswith f ''Polar_''")
      case True
      from fd obtain c where c: "map_of d f = Some c"
        by (auto simp: os_path_exists_map_of)
      from safe_rename_overwrites [OF self_append_ne c] obtain d1 where
        d1: "safe_rename f (f @ ''.txt'') d = Inr d1"
        "\<forall>n. n \<noteq> f \<and> n \<noteq> f @ ''.txt'' \<longrightarrow> map_of d1 n = map_of d n"
        by blast
      from safe_rename_ok [OF self_append_ne fd] d1(1)
      have names: "set (os_listdir d1) = insert (f @ ''.txt'') (set (os_listdir d) - {f})"
        by auto
      from True have "startswith (f @ ''.txt'') ''Polar_''"
        by (rule startswith_append)
      with step [OF names d1(2) _ more] d1(1) True noc show ?thesis by simp
    next
      case False
      from Cons.prems(2) have "set ls \<subseteq> set (os_listdir d)" by simp
      from Cons.IH [OF dist this third more] False noc show ?thesis by simp
    qed
  qed
qed


lemma rename_files_stays_absent:
  assumes "\<not> os_path_exists n d" "n \<noteq> a @ ''.dat''" "\<not> startswith n ''Polar_''"
    and "rename_files a ls d = Inr d'"
  shows "\<not> os_path_exists n d'"
  using assms(1,4)
proof (induction ls arbitrary: d)
  case Nil
  then show ?case by simp
next
  case (Cons g ls)
  have step: "\<not> os_path_exists n d'"
    if r: "safe_rename g new d = Inr d1" and rest: "rename_files a ls d1 = Inr d'"
      and new: "n \<noteq> new" for new d1
  proof -
    from r have ok: "g \<noteq> new" "os_path_exists g d"
      by (auto simp: safe_rename_eq split: if_splits)
    from safe_rename_ok [OF ok] r
    have "set (os_listdir d1) = insert new (set (os_listdir d) - {g})" by auto
    with Cons.prems(1) new have "\<not> os_path_exists n d1"
      by (auto simp: os_path_exists_def)
    from Cons.IH [OF this rest] show ?thesis .
  qed
  show ?case
  proof (cases "startswith g ''Coordinates_''")
    case True
    with Cons.prems(2) obtain d1 where "safe_rename g (a @ ''.dat'') d = Inr d1"
      "rename_files a ls d1 = Inr d'"
      by (auto split: sum.splits)
    from step [OF this assms(2)] show ?thesis .
  next
    case noc: False
    show ?thesis
    proof (cases "startswith g ''Polar_''")
      case True
      with noc Cons.prems(2) obtain d1 where "safe_rename g (g @ ''.txt'') d = Inr d1"
        "rename_files a ls d1 = Inr d'"
        by (auto split: sum.splits)
      moreover from True assms(3) have "n \<noteq> g @ ''.txt''"
        using startswith_append by auto
      ultimately show ?thesis by (rule step)
    next
      case False
      with noc Cons.prems(2) have "rename_files a ls d = Inr d'" by simp
      from Cons.IH [OF Cons.prems(1) this] show ?thesis .
    qed
  qed
qed

lemma rename_files_removes:
  assumes "f \<in> set ls" "startswith f ''Coordinates_''" "f \<noteq> a @ ''.dat''"
    and "rename_files a ls d = Inr d'"
  shows "\<not> os_path_exists f d'"
  using assms(1,4)
proof (induction ls arbitrary: d)
  case Nil
  then show ?case by simp
next
  case (Cons g ls)
  have nopolar: "\<not> startswith f ''Polar_''"
    using assms(2) by (rule coordinates_not_polar)
  show ?case
  proof (cases "g = f")
    case True
    with assms(2) Cons.prems(2) obtain d1 where r: "safe_rename f (a @ ''.dat'') d = Inr d1"
      and rest: "rename_files a ls d1 = Inr d'"
      by (auto split: sum.splits)
    from r have ok: "f \<noteq> a @ ''.dat''" "os_path_exists f d"
      by (auto simp: safe_rename_eq split: if_splits)
    from safe_rename_ok [OF ok] r
    have "set (os_listdir d1) = insert (a @ ''.dat'') (set (os_listdir d) - {f})" by auto
    with assms(3) have "\<not> os_path_exists f d1"
      by (auto simp: os_path_exists_def)
    from rename_files_stays_absent [OF this assms(3) nopolar rest] show ?thesis .
  next
    case False
    with Cons.prems(1) have mem: "f \<in> set ls" by simp
    from Cons.prems(2) obtain d1 where "rename_files a ls d1 = Inr d'"
      by (auto split: sum.splits if_splits)
    from Cons.IH [OF mem this] show ?thesis .
  qed
qed

lemma cleanup_last_coordinates:
  assumes "distinct (os_listdir d)"
    and "\<forall>f\<in>set (os_listdir d). startswith f ''Coordinates_'' \<longrightarrow> f \<noteq> a @ ''.dat''"
    and "\<not> startswith a ''Polar_''"
    and "filter (\<lambda>f. startswith f ''Coordinates_'') (os_listdir d) \<noteq> []"
  shows "\<exists>d'. cleanup a d = Inr d'
    \<and> map_of d' (a @ ''.dat'') =
        map_of d (last (filter (\<lambda>f. startswith f ''Coordinates_'') (os_listdir d)))
    \<and> (\<forall>f\<in>set (os_listdir d). startswith f ''Coordinates_'' \<longrightarrow> \<not> os_path_exists f d')"
proof -
  let ?C = "\<lambda>f. startswith f ''Coordinates_''"
  let ?d0 = "filter (\<lambda>e. fst e \<noteq> '':00.bl'') d"
  have c: "cleanup a d = rename_files a (os_listdir ?d0) ?d0"
    by (simp add: cleanup_def safe_remove_eq)
  have ls0: "os_listdir ?d0 = filter (\<lambda>f. f \<noteq> '':00.bl'') (os_listdir d)"
    by (simp add: os_listdir_def filter_map comp_def)
  have nobl: "f \<noteq> '':00.bl''" if "?C f" for f
    using that by (auto simp: startswith_def)
  have cs: "filter ?C (os_listdir ?d0) = filter ?C (os_listdir d)"
    unfolding ls0 filter_filter by (rule filter_cong) (auto dest: nobl)
  have dist: "distinct (os_listdir ?d0)"
    using assms(1) by (simp add: ls0)
  have third: "\<forall>f\<in>set (os_listdir ?d0). ?C f \<longrightarrow> f \<noteq> a @ ''.dat''"
    using assms(2) by (simp add: ls0)
  have more: "filter ?C (os_listdir ?d0) \<noteq> []"
    unfolding cs by (rule assms(4))
  from rename_files_last_coordinates [OF dist subset_refl third assms(3) more]
  obtain d' where d': "rename_files a (os_listdir ?d0) ?d0 = Inr d'"
    "map_of d' (a @ ''.dat'') = map_of ?d0 (last (filter ?C (os_listdir ?d0)))"
    by blast
  let ?g = "last (filter ?C (os_listdir d))"
  from assms(4) have "?g \<in> set (filter ?C (os_listdir d))" by (rule last_in_set)
  then have "?g \<noteq> '':00.bl''" by (auto dest: nobl)
  then have look: "map_of ?d0 ?g = map_of d ?g"
    by (simp add: map_of_filter_ne)
  have gone: "\<not> os_path_exists f d'" if "f \<in> set (os_listdir d)" "?C f" for f
  proof -
    from that nobl have "f \<in> set (os_listdir ?d0)" by (simp add: ls0)
    moreover from that assms(2) have "f \<noteq> a @ ''.dat''" by simp
    ultimately show ?thesis using that(2) d'(1) by (intro rename_files_removes)
  qed
  from c d' look gone show ?thesis by (simp add: cs)
qed

section \<open>Properties of the float model\<close>

text \<open>
  Rounding leaves every number with a significand below \<open>2 ^ 53\<close> as it is, so the
  arithmetic of the angle sweep is exact; the Reynolds numbers need one real rounding,
  of \<open>0.1 * 100000\<close>.
\<close>

lemma ilog2_le:
  assumes "0 < x"
  shows "2 powi (ilog2 x) \<le> x"
proof -
  obtain p q where pq: "quotient_of x = (p, q)" by (cases "quotient_of x")
  then have q: "0 < q" and x: "x = of_int p / of_int q"
    by (simp_all add: quotient_of_denom_pos quotient_of_div)
  from assms q x have p: "0 < p"
    by (simp add: zero_less_divide_iff)
  let ?k = "bitlen p - bitlen q"
  show ?thesis
  proof (cases "2 powi ?k \<le> x")
    case True
    with pq show ?thesis by (simp add: ilog2_def)
  next
    case False
    from bitlen_bounds [OF p] have "2 ^ nat (bitlen p - 1) \<le> p" by simp
    then have "(of_int (2 ^ nat (bitlen p - 1)) :: rat) \<le> of_int p"
      by (simp only: of_int_le_iff)
    moreover from p have "1 \<le> bitlen p"
      by (metis bitlen_eq_zero_iff bitlen_nonneg int_one_le_iff_zero_less linorder_not_less order_le_less)
    ultimately have lo: "(2::rat) powi (bitlen p - 1) \<le> of_int p"
      by (simp add: power_int_def)
    from bitlen_bounds [OF q] have "q < 2 ^ nat (bitlen q)" by simp
    then have "(of_int q :: rat) < of_int (2 ^ nat (bitlen q))"
      by (simp only: of_int_less_iff)
    then have hi: "(of_int q :: rat) \<le> 2 powi (bitlen q)"
      using bitlen_nonneg [of q] by (simp add: power_int_def)
    have "(2::rat) powi (?k - 1) = 2 powi (bitlen p - 1) / 2 powi (bitlen q)"
      by (simp add: power_int_diff)
    also have "\<dots> \<le> of_int p / of_int q"
      using lo hi q p by (intro frac_le) simp_all
    finally have "(2::rat) powi (?k - 1) \<le> x" by (simp add: x)
    with False pq show ?thesis by (simp add: ilog2_def)
  qed
qed

lemma round_half_even_int: "round_half_even (of_int n) = n"
  by (simp add: round_half_even_def)

lemma fl_exact:
  assumes "\<bar>m\<bar> < 2 ^ 53"
  shows "fl (of_int m * 2 powi e) = of_int m * 2 powi e"
proof (cases "m = 0")
  case True
  then show ?thesis by (simp add: fl_def)
next
  case False
  let ?x = "of_int m * (2::rat) powi e"
  let ?a = "of_int \<bar>m\<bar> * (2::rat) powi e"
  have ax: "\<bar>?x\<bar> = ?a" by (simp add: abs_mult)
  from False have pos: "0 < ?a" by simp
  let ?k = "ilog2 ?a"
  have "2 powi ?k \<le> ?a" using pos by (rule ilog2_le)
  also have "?a < 2 ^ 53 * 2 powi e"
  proof -
    from assms have "(of_int \<bar>m\<bar> :: rat) < of_int (2 ^ 53)"
      by (simp only: of_int_less_iff)
    then show ?thesis by simp
  qed
  also have "\<dots> = 2 powi (53 + e)"
    by (simp add: power_int_add)
  finally have "(2::rat) powi ?k < 2 powi (53 + e)" .
  then have "?k < 53 + e"
    by (metis linorder_not_less numeral_One numeral_le_iff one_le_numeral power_int_increasing semiring_norm(69))
  then have d: "0 \<le> e - (?k - 52)" by simp
  have "?a / 2 powi (?k - 52) = of_int \<bar>m\<bar> * 2 powi (e - (?k - 52))"
    by (simp add: power_int_diff)
  also have "\<dots> = of_int (\<bar>m\<bar> * 2 ^ nat (e - (?k - 52)))"
    using d by (simp add: power_int_def)
  finally have q: "?a / 2 powi (?k - 52) = of_int (\<bar>m\<bar> * 2 ^ nat (e - (?k - 52)))" .
  from False have nz: "?x \<noteq> 0" by simp
  have "fl ?x = sgn ?x * of_int (round_half_even (\<bar>?x\<bar> / 2 powi (ilog2 \<bar>?x\<bar> - 52)))
      * 2 powi (ilog2 \<bar>?x\<bar> - 52)"
    unfolding fl_def Let_def using nz by (simp only: if_False)
  also have "\<dots> = sgn ?x * of_int (\<bar>m\<bar> * 2 ^ nat (e - (?k - 52))) * 2 powi (?k - 52)"
    by (simp only: ax q round_half_even_int)
  also have "\<dots> = sgn ?x * (?a / 2 powi (?k - 52)) * 2 powi (?k - 52)"
    by (simp only: q)
  also have "\<dots> = sgn ?x * ?a" by simp
  also have "\<dots> = ?x"
  proof -
    have "sgn ?x = sgn (of_int m)" by (simp add: sgn_mult)
    moreover have "sgn (of_int m :: rat) * of_int \<bar>m\<bar> = of_int m"
      using sgn_mult_abs [of "of_int m :: rat"] by simp
    ultimately show ?thesis by (simp add: mult.assoc [symmetric])
  qed
  finally show ?thesis .
qed

lemma fl_int: "\<bar>m\<bar> < 2 ^ 53 \<Longrightarrow> fl (of_int m) = of_int m"
  using fl_exact [of m 0] by simp

lemma fl_half: "\<bar>m\<bar> < 2 ^ 53 \<Longrightarrow> fl (of_int m / 2) = of_int m / 2"
  using fl_exact [of m "- 1"] by (simp add: power_int_minus field_simps)

lemma aoa_eq: "aoa = map (\<lambda>i. - 20 + of_nat i / 2) [0..<90]"
proof -
  have half: "fl (1 / 2) = 1 / 2"
    using fl_half [of 1] by simp
  have span: "fsub 25 (- 20) = 45"
    using fl_int [of 45] by (simp add: fsub_def)
  have cnt: "fdiv 45 (1 / 2) = 90"
    using fl_int [of 90] by (simp add: fdiv_def)
  have second: "fadd (- 20) (1 / 2) = - (39 / 2)"
    using fl_half [of "- 39"] by (simp add: fadd_def)
  have delta: "fsub (- (39 / 2)) (- 20) = 1 / 2"
    using fl_half [of 1] by (simp add: fsub_def)
  have entry: "fadd (- 20) (fmul (of_nat i) (1 / 2)) = - 20 + of_nat i / 2" if "i < 90" for i
  proof -
    have "fl (of_int (int i) / 2) = of_int (int i) / 2"
      using that by (intro fl_half) simp
    then have prod: "fmul (of_nat i) (1 / 2) = of_nat i / 2"
      by (simp add: fmul_def)
    have e: "(- 20 + of_nat i / 2 :: rat) = of_int (int i - 40) / 2"
      by simp
    have "fadd (- 20) (fmul (of_nat i) (1 / 2)) = fl (- 20 + of_nat i / 2)"
      by (simp only: fadd_def prod)
    also have "\<dots> = fl (of_int (int i - 40) / 2)"
      by (simp only: e)
    also have "\<dots> = of_int (int i - 40) / 2"
      using that by (intro fl_half) simp
    finally show ?thesis by (simp only: e)
  qed
  have "aoa = map (\<lambda>i. fadd (- 20) (fmul (of_nat i) (1 / 2))) [0..<90]"
    by (simp add: aoa_def np_arange_def half span cnt second delta)
  also have "\<dots> = map (\<lambda>i. - 20 + of_nat i / 2) [0..<90]"
    by (rule map_cong) (simp_all add: entry)
  finally show ?thesis .
qed

lemma reynolds_eq: "reynolds = [10000, 50000, 100000]"
proof -
  have tenth: "fl (1 / 10) = 3602879701896397 / 36028797018963968"
    by code_simp
  have a: "fl (3602879701896397 / 36028797018963968 * 100000) = 10000"
    by code_simp
  have half: "fl (1 / 2) = 1 / 2"
    using fl_half [of 1] by simp
  have b: "fl (1 / 2 * 100000) = 50000"
    using fl_int [of 50000] by simp
  have c: "fl (1 * 100000) = 100000"
    using fl_int [of 100000] by simp
  show ?thesis
    unfolding reynolds_def fmul_def list.map tenth half a b c ..
qed

section \<open>Properties of the loop over the Reynolds numbers\<close>

lemma final_state_simps: "final_state (Inl (e, s)) = s" "final_state (Inr s) = s"
  by (simp_all add: final_state_def)

lemma parse_inputs_arg: "parse_inputs (prog # a # args) = Inr a"
  by (simp add: parse_inputs_def)

lemma polar_loop_naca:
  assumes "startswith a ''naca''"
  shows "\<exists>s'. polar_loop xf a sweep res s = Inr s' \<and>
     calls s' = calls s @
       map (\<lambda>re. \<lparr>airfoil = a, alfas = sweep, output' = ''Polar'', Reynolds = re,
                   plots = False, NACA = True, iteration = 5000\<rparr>) res"
proof (induction res arbitrary: s)
  case Nil
  then show ?case by simp
next
  case (Cons re res)
  let ?c = "\<lparr>airfoil = a, alfas = sweep, output' = ''Polar'', Reynolds = re,
              plots = False, NACA = True, iteration = 5000\<rparr>"
  from Cons.IH [of "xf_call xf ?c s"] assms show ?case
    by (auto simp: xf_call_def)
qed

lemma polar_loop_file:
  assumes "\<not> startswith a ''naca''"
  shows "\<exists>k\<le>length res.
     calls (final_state (polar_loop xf a sweep res s)) = calls s @
       map (\<lambda>re. \<lparr>airfoil = a, alfas = sweep, output' = ''Polar'', Reynolds = re,
                   plots = False, NACA = False, iteration = 5000\<rparr>) (take k res)"
proof (induction res arbitrary: s)
  case Nil
  then show ?case by (simp add: final_state_def)
next
  case (Cons re res)
  let ?c = "\<lparr>airfoil = a, alfas = sweep, output' = ''Polar'', Reynolds = re,
              plots = False, NACA = False, iteration = 5000\<rparr>"
  show ?case
  proof (cases "os_path_exists a (files s) \<or> os_path_exists (a @ ''.dat'') (files s)")
    case True
    from Cons.IH [of "xf_call xf ?c s"] obtain k where
      k: "k \<le> length res"
      "calls (final_state (polar_loop xf a sweep res (xf_call xf ?c s))) =
         calls (xf_call xf ?c s) @
         map (\<lambda>re. \<lparr>airfoil = a, alfas = sweep, output' = ''Polar'', Reynolds = re,
                   plots = False, NACA = False, iteration = 5000\<rparr>) (take k res)"
      by blast
    with True assms show ?thesis
      by (intro exI [of _ "Suc k"]) (simp add: xf_call_def)
  next
    case False
    with assms show ?thesis
      by (intro exI [of _ 0]) (simp add: final_state_def)
  qed
qed

lemma polar_loop_file_first:
  assumes "\<not> startswith a ''naca''"
    and "os_path_exists a (files s) \<or> os_path_exists (a @ ''.dat'') (files s)"
  shows "\<exists>rest. calls (final_state (polar_loop xf a sweep (re # res) s)) =
     calls s @ \<lparr>airfoil = a, alfas = sweep, output' = ''Polar'', Reynolds = re,
                 plots = False, NACA = False, iteration = 5000\<rparr> # rest"
proof -
  let ?c = "\<lparr>airfoil = a, alfas = sweep, output' = ''Polar'', Reynolds = re,
              plots = False, NACA = False, iteration = 5000\<rparr>"
  from polar_loop_file [OF assms(1), of res xf sweep "xf_call xf ?c s"]
  obtain k where
    "calls (final_state (polar_loop xf a sweep res (xf_call xf ?c s))) =
       calls (xf_call xf ?c s) @
       map (\<lambda>re. \<lparr>airfoil = a, alfas = sweep, output' = ''Polar'', Reynolds = re,
                   plots = False, NACA = False, iteration = 5000\<rparr>) (take k res)"
    by blast
  with assms show ?thesis
    by (simp add: xf_call_def)
qed

lemma main_calls:
  "calls (final_state (main xf (prog # a # args) s)) =
     calls (final_state (polar_loop xf a aoa reynolds s))"
proof (cases "polar_loop xf a aoa reynolds s")
  case (Inl e)
  then show ?thesis by (simp add: main_def parse_inputs_arg)
next
  case (Inr s')
  show ?thesis
  proof (cases "cleanup a (files s')")
    case (Inl e)
    with Inr show ?thesis
      by (cases e) (simp add: main_def parse_inputs_arg final_state_def)
  next
    case r: (Inr d)
    with Inr show ?thesis
      by (simp add: main_def parse_inputs_arg final_state_def)
  qed
qed

section \<open>The claims about cleanup\<close>

text \<open>
  C7. cleanup deletes the temporary file \<^verbatim>\<open>:00.bl\<close> when it is present and raises no
  error when it is absent: \<open>safe_remove\<close> always returns, it returns the directory as
  it is when the file is absent, the file is absent from the directory cleanup ends in
  (whether cleanup returned or raised), and no error of cleanup is about that file.
\<close>

theorem cleanup_removes_temp:
  "safe_remove '':00.bl'' d = Inr (filter (\<lambda>e. fst e \<noteq> '':00.bl'') d)
   \<and> (\<not> os_path_exists '':00.bl'' d \<longrightarrow> safe_remove '':00.bl'' d = Inr d)
   \<and> \<not> os_path_exists '':00.bl'' (dir_of (cleanup a d))
   \<and> (\<forall>e d'. cleanup a d = Inl (e, d') \<longrightarrow> e \<noteq> FileNotFoundError '':00.bl'')"
proof (intro conjI allI impI)
  show "safe_remove '':00.bl'' d = Inr (filter (\<lambda>e. fst e \<noteq> '':00.bl'') d)"
    by (rule safe_remove_eq)
  show "safe_remove '':00.bl'' d = Inr d" if "\<not> os_path_exists '':00.bl'' d"
    using that by (simp add: safe_remove_def)
  let ?d1 = "filter (\<lambda>e. fst e \<noteq> '':00.bl'') d"
  have c: "cleanup a d = rename_files a (os_listdir ?d1) ?d1"
    by (simp add: cleanup_def safe_remove_eq)
  have "map_of (dir_of (rename_files a (os_listdir ?d1) ?d1)) '':00.bl'' = map_of ?d1 '':00.bl''"
    by (rule rename_files_frame) (simp_all add: startswith_def dat_not_bl [symmetric])
  then show "\<not> os_path_exists '':00.bl'' (dir_of (cleanup a d))"
    by (simp add: c os_path_exists_map_of map_of_filter_ne)
  show "e \<noteq> FileNotFoundError '':00.bl''" if "cleanup a d = Inl (e, d')" for e d'
    using rename_files_error [of a "os_listdir ?d1" ?d1 e d'] that
    by (auto simp: c startswith_def)
qed

theorem cleanup_removes_temp_witness:
  "\<not> os_path_exists '':00.bl'' [(''Polar_a'', 1::nat)]
   \<and> safe_remove '':00.bl'' [(''Polar_a'', 1::nat)] = Inr [(''Polar_a'', 1)]
   \<and> cleanup ''naca0012'' [('':00.bl'', 0), (''Polar_a'', 1::nat)] = Inr [(''Polar_a.txt'', 1)]
   \<and> \<not> os_path_exists '':00.bl'' (dir_of (cleanup ''naca0012'' [('':00.bl'', 0), (''Polar_a'', 1::nat)]))"
proof -
  have absent: "\<not> os_path_exists '':00.bl'' [(''Polar_a'', 1::nat)]"
    by code_simp
  from cleanup_removes_temp [of "[(''Polar_a'', 1::nat)]" "''naca0012''"] absent
  have kept: "safe_remove '':00.bl'' [(''Polar_a'', 1::nat)] = Inr [(''Polar_a'', 1)]"
    by blast
  from cleanup_removes_temp [of "[('':00.bl'', 0), (''Polar_a'', 1::nat)]" "''naca0012''"]
  have gone: "\<not> os_path_exists '':00.bl''
      (dir_of (cleanup ''naca0012'' [('':00.bl'', 0), (''Polar_a'', 1::nat)]))"
    by blast
  have run: "cleanup ''naca0012'' [('':00.bl'', 0), (''Polar_a'', 1::nat)] = Inr [(''Polar_a.txt'', 1)]"
    by code_simp
  from absent kept gone run show ?thesis by blast
qed

text \<open>
  C9, as stated, fails: cleanup replaces a file named \<open>airfoil @ ''.dat''\<close> by the
  content of a \<^verbatim>\<open>Coordinates_\<close> file, although its name has none of the three shapes.
\<close>

theorem cleanup_frame_counterexample:
  "''foo.dat'' \<noteq> '':00.bl'' \<and> \<not> startswith ''foo.dat'' ''Coordinates_''
   \<and> \<not> startswith ''foo.dat'' ''Polar_''
   \<and> map_of [(''Coordinates_x'', 1), (''foo.dat'', 0::nat)] ''foo.dat'' = Some 0
   \<and> cleanup ''foo'' [(''Coordinates_x'', 1), (''foo.dat'', 0::nat)] = Inr [(''foo.dat'', 1)]
   \<and> map_of (dir_of (cleanup ''foo'' [(''Coordinates_x'', 1), (''foo.dat'', 0::nat)])) ''foo.dat''
       = Some 1"
  by code_simp

text \<open>
  C9, amended. cleanup leaves unchanged every file whose name is not \<^verbatim>\<open>:00.bl\<close>, does
  not start with \<^verbatim>\<open>Coordinates_\<close> or \<^verbatim>\<open>Polar_\<close>, and is not the rename destination
  \<open>airfoil @ ''.dat''\<close> (that file, too, is unchanged when the directory holds no
  \<^verbatim>\<open>Coordinates_\<close> file). This holds whether cleanup returned or raised.
\<close>

theorem cleanup_frame:
  assumes "n \<noteq> '':00.bl''" "\<not> startswith n ''Coordinates_''" "\<not> startswith n ''Polar_''"
    and "n \<noteq> a @ ''.dat'' \<or> (\<forall>f\<in>set (os_listdir d). \<not> startswith f ''Coordinates_'')"
  shows "map_of (dir_of (cleanup a d)) n = map_of d n"
proof -
  let ?d1 = "filter (\<lambda>e. fst e \<noteq> '':00.bl'') d"
  have c: "cleanup a d = rename_files a (os_listdir ?d1) ?d1"
    by (simp add: cleanup_def safe_remove_eq)
  have "set (os_listdir ?d1) \<subseteq> set (os_listdir d)"
    by (auto simp: os_listdir_def)
  with assms(4)
  have "n \<noteq> a @ ''.dat'' \<or> (\<forall>f\<in>set (os_listdir ?d1). \<not> startswith f ''Coordinates_'')"
    by blast
  from rename_files_frame [OF assms(2,3) this, of ?d1] assms(1)
  show ?thesis by (simp add: c map_of_filter_ne)
qed

theorem cleanup_frame_witness:
  "''notes.md'' \<noteq> '':00.bl'' \<and> \<not> startswith ''notes.md'' ''Coordinates_''
   \<and> \<not> startswith ''notes.md'' ''Polar_'' \<and> ''notes.md'' \<noteq> ''foo'' @ ''.dat''
   \<and> map_of (dir_of (cleanup ''foo''
        [('':00.bl'', 0), (''Coordinates_x'', 1), (''notes.md'', 2::nat), (''Polar_a'', 3)]))
        ''notes.md'' = Some 2"
  using cleanup_frame [of "''notes.md''" "''foo''"
      "[('':00.bl'', 0), (''Coordinates_x'', 1), (''notes.md'', 2::nat), (''Polar_a'', 3)]"]
  by (simp add: startswith_def)

text \<open>
  C1, as stated, fails: a second cleanup renames a \<^verbatim>\<open>Polar_\<close> file again, since its new
  name still starts with \<^verbatim>\<open>Polar_\<close>.
\<close>

theorem cleanup_twice_counterexample:
  "cleanup ''naca0012'' [(''Polar_a'', 0::nat)] = Inr [(''Polar_a.txt'', 0)]
   \<and> cleanup ''naca0012'' [(''Polar_a.txt'', 0::nat)] = Inr [(''Polar_a.txt.txt'', 0)]
   \<and> [(''Polar_a.txt.txt'', 0::nat)] \<noteq> [(''Polar_a.txt'', 0)]"
  by code_simp

text \<open>
  C1, amended. For a working directory that holds no file whose name starts with
  \<^verbatim>\<open>Polar_\<close>, and an airfoil identifier that starts with neither \<^verbatim>\<open>Coordinates_\<close> nor
  \<^verbatim>\<open>Polar_\<close>, cleanup returns, and a second cleanup returns the directory the first one
  left, whatever the order in which that directory is listed; the second run finds the
  temporary file \<^verbatim>\<open>:00.bl\<close> absent and raises no error.
\<close>

theorem cleanup_twice:
  assumes "distinct (os_listdir d)"
    and "\<forall>f\<in>set (os_listdir d). \<not> startswith f ''Polar_''"
    and "\<not> startswith a ''Coordinates_''" and "\<not> startswith a ''Polar_''"
  shows "\<exists>d1. cleanup a d = Inr d1 \<and> \<not> os_path_exists '':00.bl'' d1
           \<and> cleanup a d1 = Inr d1
           \<and> (\<forall>d2. set d2 = set d1 \<longrightarrow> cleanup a d2 = Inr d2)"
proof -
  let ?d0 = "filter (\<lambda>e. fst e \<noteq> '':00.bl'') d"
  have c: "cleanup a d = rename_files a (os_listdir ?d0) ?d0"
    by (simp add: cleanup_def safe_remove_eq)
  have names0: "set (os_listdir ?d0) = set (os_listdir d) - {'':00.bl''}"
    by (auto simp: os_listdir_def)
  have dist: "distinct (os_listdir ?d0)"
    using assms(1) by (simp add: os_listdir_def distinct_map_filter)
  have nop: "\<forall>f\<in>set (os_listdir ?d0). \<not> startswith f ''Polar_''"
    using assms(2) names0 by simp
  have dest: "\<not> startswith (a @ ''.dat'') ''Coordinates_''" "\<not> startswith (a @ ''.dat'') ''Polar_''"
    using assms(3,4) by (simp_all add: dat_prefix)
  then have "\<forall>f\<in>set (os_listdir ?d0). startswith f ''Coordinates_'' \<longrightarrow> f \<noteq> a @ ''.dat''"
    by auto
  from rename_files_ok [OF dist subset_refl this] obtain d1 where
    d1: "rename_files a (os_listdir ?d0) ?d0 = Inr d1"
    by blast
  from rename_files_names [OF nop d1]
  have names1: "set (os_listdir d1) \<subseteq> insert (a @ ''.dat'')
      (set (os_listdir ?d0) - {f \<in> set (os_listdir ?d0). startswith f ''Coordinates_''})" .
  have plain: "\<forall>f\<in>set (os_listdir d1).
      f \<noteq> '':00.bl'' \<and> \<not> startswith f ''Coordinates_'' \<and> \<not> startswith f ''Polar_''"
  proof
    fix f assume "f \<in> set (os_listdir d1)"
    with names1 consider "f = a @ ''.dat''"
      | "f \<in> set (os_listdir ?d0)" "\<not> startswith f ''Coordinates_''"
      by auto
    then show "f \<noteq> '':00.bl'' \<and> \<not> startswith f ''Coordinates_'' \<and> \<not> startswith f ''Polar_''"
    proof cases
      case 1
      with dest dat_not_bl [of a] show ?thesis by simp
    next
      case 2
      with nop names0 show ?thesis by auto
    qed
  qed
  have again: "cleanup a d2 = Inr d2" if "set d2 = set d1" for d2
  proof -
    from that have "set (os_listdir d2) = set (os_listdir d1)"
      by (simp add: os_listdir_def)
    with plain show ?thesis by (intro cleanup_noop) simp
  qed
  from plain have "\<not> os_path_exists '':00.bl'' d1"
    by (auto simp: os_path_exists_def)
  with c d1 again show ?thesis by auto
qed

theorem cleanup_twice_witness:
  "distinct (os_listdir [('':00.bl'', 0::nat), (''Coordinates_x'', 1), (''naca0012.dat'', 2), (''notes.md'', 3)])
   \<and> \<not> startswith ''naca0012'' ''Coordinates_'' \<and> \<not> startswith ''naca0012'' ''Polar_''
   \<and> (\<exists>d1. cleanup ''naca0012''
          [('':00.bl'', 0::nat), (''Coordinates_x'', 1), (''naca0012.dat'', 2), (''notes.md'', 3)] = Inr d1
        \<and> \<not> os_path_exists '':00.bl'' d1 \<and> cleanup ''naca0012'' d1 = Inr d1)"
proof -
  let ?d = "[('':00.bl'', 0::nat), (''Coordinates_x'', 1), (''naca0012.dat'', 2), (''notes.md'', 3)]"
  have h: "distinct (os_listdir ?d)" "\<forall>f\<in>set (os_listdir ?d). \<not> startswith f ''Polar_''"
    "\<not> startswith ''naca0012'' ''Coordinates_''" "\<not> startswith ''naca0012'' ''Polar_''"
    by (simp_all add: os_listdir_def startswith_def)
  from cleanup_twice [OF h] h show ?thesis by blast
qed

text \<open>
  C6 says that every rename of cleanup replaces an existing destination without error.
  The code misses the rename of a file onto itself: for the airfoil identifier
  \<^verbatim>\<open>Coordinates_a\<close> and the coordinate file \<^verbatim>\<open>Coordinates_a.dat\<close>, \<open>safe_rename\<close>
  removes the destination, which is the source, and the rename then raises; the run has
  made its three solver calls and ends with the coordinate file lost.
\<close>

theorem safe_rename_onto_itself:
  "safe_rename ''Coordinates_a.dat'' (''Coordinates_a'' @ ''.dat'') [(''Coordinates_a.dat'', c)]
     = Inl (FileNotFoundError ''Coordinates_a.dat'', [])
   \<and> cleanup ''Coordinates_a'' [(''Coordinates_a.dat'', c)]
     = Inl (FileNotFoundError ''Coordinates_a.dat'', [])
   \<and> (\<exists>s. main (\<lambda>c d. d) [prog, ''Coordinates_a'']
              \<lparr>files = [(''Coordinates_a.dat'', c)], calls = []\<rparr>
            = Inl (FileNotFoundError ''Coordinates_a.dat'', s)
          \<and> files s = [] \<and> length (calls s) = 3)"
proof -
  have r: "safe_rename ''Coordinates_a.dat'' (''Coordinates_a'' @ ''.dat'') [(''Coordinates_a.dat'', c)]
     = Inl (FileNotFoundError ''Coordinates_a.dat'', [])"
    by (simp add: safe_rename_eq)
  have cl: "cleanup ''Coordinates_a'' [(''Coordinates_a.dat'', c)]
     = Inl (FileNotFoundError ''Coordinates_a.dat'', [])"
    by (simp add: cleanup_def safe_remove_eq os_listdir_def startswith_def safe_rename_eq)
  have lp: "polar_loop (\<lambda>c d. d) ''Coordinates_a'' aoa reynolds
        \<lparr>files = [(''Coordinates_a.dat'', c)], calls = []\<rparr>
      = Inr \<lparr>files = [(''Coordinates_a.dat'', c)],
          calls = map (\<lambda>re. \<lparr>airfoil = ''Coordinates_a'', alfas = aoa, output' = ''Polar'',
                   Reynolds = re, plots = False, NACA = False, iteration = 5000\<rparr>)
                 [10000, 50000, 100000]\<rparr>"
    by (simp add: reynolds_eq startswith_def os_path_exists_def os_listdir_def xf_call_def)
  from r cl show ?thesis
    by (simp add: main_def parse_inputs_def lp)
qed

text \<open>
  C10 says that of several \<^verbatim>\<open>Coordinates_\<close> files each is renamed to the one destination,
  so that at most one content survives. When one of them is the destination itself, and
  is listed first, cleanup raises at that rename: the others are not renamed and both
  their contents survive.
\<close>

theorem cleanup_aborts_among_coordinates:
  "cleanup ''Coordinates_a''
     [(''Coordinates_a.dat'', c1), (''Coordinates_b'', c2), (''Coordinates_c'', c3)]
   = Inl (FileNotFoundError ''Coordinates_a.dat'',
          [(''Coordinates_b'', c2), (''Coordinates_c'', c3)])"
  by (simp add: cleanup_def safe_remove_eq os_listdir_def startswith_def safe_rename_eq)

section \<open>The claims about main\<close>

text \<open>
  In the theorems below a run is \<open>main xf (prog # a # args) s\<close>: the script started
  with the airfoil identifier \<open>a\<close> as its first argument, with the solver \<open>xf\<close>, in
  the state \<open>s\<close>. The solver calls a run issues are the entries it appends to
  \<open>calls s\<close>; they are read off the state the run ends in, whether it returned or
  raised.
\<close>

text \<open>
  C2. For every airfoil identifier that starts with \<^verbatim>\<open>naca\<close>, the run issues exactly
  one solver call per entry of the Reynolds list, in list order (the Reynolds numbers of
  the new calls are the list itself), and every call is passed the same angle sweep.
\<close>

theorem main_naca_one_call_per_reynolds:
  assumes "startswith a ''naca''"
  shows "\<exists>new. calls (final_state (main xf (prog # a # args) s)) = calls s @ new
           \<and> map Reynolds new = reynolds
           \<and> length new = length reynolds
           \<and> (\<forall>c\<in>set new. alfas c = aoa)"
proof -
  let ?new = "map (\<lambda>re. \<lparr>airfoil = a, alfas = aoa, output' = ''Polar'', Reynolds = re,
                   plots = False, NACA = True, iteration = 5000\<rparr>) reynolds"
  from polar_loop_naca [OF assms, of xf aoa reynolds s]
  have "calls (final_state (main xf (prog # a # args) s)) = calls s @ ?new"
    by (auto simp: main_calls final_state_simps)
  moreover have "map Reynolds ?new = reynolds"
    by (simp add: comp_def)
  moreover have "\<forall>c\<in>set ?new. alfas c = aoa"
    by auto
  ultimately show ?thesis
    by (intro exI [of _ ?new]) simp
qed

theorem main_naca_one_call_per_reynolds_witness:
  "startswith ''naca0012'' ''naca''
   \<and> (\<exists>new. calls (final_state (main (\<lambda>c d. d) [''polargenerator.py'', ''naca0012'']
                 \<lparr>files = ([] :: nat dir), calls = []\<rparr>)) = [] @ new
           \<and> map Reynolds new = [10000, 50000, 100000]
           \<and> length new = 3
           \<and> (\<forall>c\<in>set new. alfas c = aoa))"
proof -
  have h: "startswith ''naca0012'' ''naca''"
    by (simp add: startswith_def)
  from main_naca_one_call_per_reynolds [OF h, of "\<lambda>c d. d" "''polargenerator.py''" "[]"
      "\<lparr>files = ([] :: nat dir), calls = []\<rparr>"] h
  show ?thesis by (simp add: reynolds_eq)
qed

text \<open>
  C3. For every identifier that does not start with \<^verbatim>\<open>naca\<close>, when neither the file
  named by the identifier nor that name with \<^verbatim>\<open>.dat\<close> appended exists, the run raises
  the error for a missing airfoil file (a \<^verbatim>\<open>ValueError\<close> in the script) in the state
  it started in: no solver call was issued and no file was touched.
\<close>

theorem main_missing_file:
  assumes "\<not> startswith a ''naca''"
    and "\<not> os_path_exists a (files s)" and "\<not> os_path_exists (a @ ''.dat'') (files s)"
  shows "main xf (prog # a # args) s = Inl (ValueError ''Airfoil file not foud'', s)
         \<and> calls (final_state (main xf (prog # a # args) s)) = calls s"
proof -
  from assms
  have "main xf (prog # a # args) s = Inl (ValueError ''Airfoil file not foud'', s)"
    by (simp add: main_def parse_inputs_arg reynolds_eq)
  then show ?thesis
    by (simp add: final_state_simps)
qed

theorem main_missing_file_witness:
  "\<not> startswith ''myfoil'' ''naca''
   \<and> \<not> os_path_exists ''myfoil'' [(''other.dat'', 0::nat)]
   \<and> \<not> os_path_exists (''myfoil'' @ ''.dat'') [(''other.dat'', 0::nat)]
   \<and> main (\<lambda>c d. []) [''polargenerator.py'', ''myfoil'']
         \<lparr>files = [(''other.dat'', 0::nat)], calls = []\<rparr>
       = Inl (ValueError ''Airfoil file not foud'',
              \<lparr>files = [(''other.dat'', 0::nat)], calls = []\<rparr>)"
proof -
  have h: "\<not> startswith ''myfoil'' ''naca''"
    "\<not> os_path_exists ''myfoil'' (files \<lparr>files = [(''other.dat'', 0::nat)], calls = []\<rparr>)"
    "\<not> os_path_exists (''myfoil'' @ ''.dat'')
        (files \<lparr>files = [(''other.dat'', 0::nat)], calls = []\<rparr>)"
    by (simp_all add: startswith_def os_path_exists_def os_listdir_def)
  from main_missing_file [OF h, of "\<lambda>c d. []" "''polargenerator.py''" "[]"] h
  show ?thesis by simp
qed

text \<open>
  C4. The Reynolds list of the script is exactly \<open>[1e4, 5e4, 1e5]\<close>, and a run on
  \<^verbatim>\<open>naca0012\<close> issues exactly three solver calls, one for each of these numbers.
\<close>

theorem reynolds_list:
  "reynolds = [10000, 50000, 100000]
   \<and> map Reynolds (calls (final_state
         (main xf [prog, ''naca0012''] \<lparr>files = d, calls = []\<rparr>))) = [10000, 50000, 100000]
   \<and> length (calls (final_state
         (main xf [prog, ''naca0012''] \<lparr>files = d, calls = []\<rparr>))) = 3"
proof -
  have h: "startswith ''naca0012'' ''naca''"
    by (simp add: startswith_def)
  let ?new = "map (\<lambda>re. \<lparr>airfoil = ''naca0012'', alfas = aoa, output' = ''Polar'',
                   Reynolds = re, plots = False, NACA = True, iteration = 5000\<rparr>) reynolds"
  from polar_loop_naca [OF h, of xf aoa reynolds "\<lparr>files = d, calls = []\<rparr>"]
  have "calls (final_state (main xf [prog, ''naca0012''] \<lparr>files = d, calls = []\<rparr>)) = ?new"
    by (auto simp: main_calls final_state_simps)
  moreover have "map Reynolds ?new = reynolds"
    by (simp add: comp_def)
  moreover have "length ?new = length reynolds"
    by simp
  ultimately show ?thesis
    by (simp only: reynolds_eq) simp
qed

text \<open>
  C5. Every solver call of a run on an identifier that starts with \<^verbatim>\<open>naca\<close> is passed
  the angle sweep from \<open>-20\<close> to \<open>24.5\<close> in steps of \<open>0.5\<close>, the Reynolds number
  of its iteration, the iteration cap 5000, and plotting disabled.
\<close>

theorem main_naca_call_arguments:
  assumes "startswith a ''naca''"
  shows "\<exists>new. calls (final_state (main xf (prog # a # args) s)) = calls s @ new
           \<and> length new = length reynolds
           \<and> (\<forall>i<length new.
                 airfoil (new ! i) = a
               \<and> alfas (new ! i) = map (\<lambda>k. - 20 + of_nat k / 2) [0..<90]
               \<and> Reynolds (new ! i) = reynolds ! i
               \<and> iteration (new ! i) = 5000
               \<and> \<not> plots (new ! i)
               \<and> NACA (new ! i)
               \<and> output' (new ! i) = ''Polar'')"
proof -
  let ?new = "map (\<lambda>re. \<lparr>airfoil = a, alfas = aoa, output' = ''Polar'', Reynolds = re,
                   plots = False, NACA = True, iteration = 5000\<rparr>) reynolds"
  from polar_loop_naca [OF assms, of xf aoa reynolds s]
  have "calls (final_state (main xf (prog # a # args) s)) = calls s @ ?new"
    by (auto simp: main_calls final_state_simps)
  then show ?thesis
    by (intro exI [of _ ?new]) (simp add: aoa_eq)
qed

theorem main_naca_call_arguments_witness:
  "startswith ''naca0012'' ''naca''
   \<and> (\<exists>new. calls (final_state (main (\<lambda>c d. d) [''polargenerator.py'', ''naca0012'']
                 \<lparr>files = ([] :: nat dir), calls = []\<rparr>)) = [] @ new
           \<and> length new = 3
           \<and> (\<forall>i<length new.
                 airfoil (new ! i) = ''naca0012''
               \<and> alfas (new ! i) = map (\<lambda>k. - 20 + of_nat k / 2) [0..<90]
               \<and> Reynolds (new ! i) = [10000, 50000, 100000] ! i
               \<and> iteration (new ! i) = 5000
               \<and> \<not> plots (new ! i)
               \<and> NACA (new ! i)
               \<and> output' (new ! i) = ''Polar''))"
proof -
  have h: "startswith ''naca0012'' ''naca''"
    by (simp add: startswith_def)
  from main_naca_call_arguments [OF h, of "\<lambda>c d. d" "''polargenerator.py''" "[]"
      "\<lparr>files = ([] :: nat dir), calls = []\<rparr>"] h
  show ?thesis by (simp add: reynolds_eq)
qed


text \<open>
  C8. The test for the parametric mode is a case-sensitive prefix test on the lowercase
  string \<^verbatim>\<open>naca\<close> (\<^verbatim>\<open>NACA0012\<close> does not pass it). For every identifier that does not
  start with \<^verbatim>\<open>naca\<close>, every solver call of the run is in coordinate-file mode; when
  the file named by the identifier, or that name with \<^verbatim>\<open>.dat\<close> appended, exists, the
  first call is issued in that mode; when neither exists, the run raises the error for a
  missing airfoil file; so a run that returns had one of the two files.
\<close>

theorem main_prefix_is_case_sensitive:
  assumes "\<not> startswith a ''naca''"
  shows "\<not> startswith ''NACA0012'' ''naca''
    \<and> (\<forall>c\<in>set (drop (length (calls s)) (calls (final_state (main xf (prog # a # args) s)))).
          \<not> NACA c \<and> airfoil c = a)
    \<and> (os_path_exists a (files s) \<or> os_path_exists (a @ ''.dat'') (files s) \<longrightarrow>
          (\<exists>c rest. calls (final_state (main xf (prog # a # args) s)) = calls s @ c # rest
             \<and> \<not> NACA c \<and> airfoil c = a))
    \<and> (\<not> os_path_exists a (files s) \<and> \<not> os_path_exists (a @ ''.dat'') (files s) \<longrightarrow>
          main xf (prog # a # args) s = Inl (ValueError ''Airfoil file not foud'', s))
    \<and> ((\<exists>s'. main xf (prog # a # args) s = Inr s') \<longrightarrow>
          os_path_exists a (files s) \<or> os_path_exists (a @ ''.dat'') (files s))"
proof -
  have upper: "\<not> startswith ''NACA0012'' ''naca''"
    by (simp add: startswith_def)
  from polar_loop_file [OF assms, of reynolds xf aoa s] obtain k where
    k: "calls (final_state (main xf (prog # a # args) s)) = calls s @
       map (\<lambda>re. \<lparr>airfoil = a, alfas = aoa, output' = ''Polar'', Reynolds = re,
                   plots = False, NACA = False, iteration = 5000\<rparr>) (take k reynolds)"
    by (auto simp: main_calls)
  have mode: "\<forall>c\<in>set (drop (length (calls s))
      (calls (final_state (main xf (prog # a # args) s)))). \<not> NACA c \<and> airfoil c = a"
    by (auto simp: k)
  have first: "\<exists>c rest. calls (final_state (main xf (prog # a # args) s)) = calls s @ c # rest
             \<and> \<not> NACA c \<and> airfoil c = a"
    if "os_path_exists a (files s) \<or> os_path_exists (a @ ''.dat'') (files s)"
  proof -
    from polar_loop_file_first [OF assms that, of xf aoa 10000 "[50000, 100000]"]
    obtain rest where
      "calls (final_state (main xf (prog # a # args) s)) =
        calls s @ \<lparr>airfoil = a, alfas = aoa, output' = ''Polar'', Reynolds = 10000,
                 plots = False, NACA = False, iteration = 5000\<rparr> # rest"
      by (auto simp: main_calls reynolds_eq simp del: polar_loop.simps)
    then show ?thesis by simp
  qed
  have missing: "main xf (prog # a # args) s = Inl (ValueError ''Airfoil file not foud'', s)"
    if "\<not> os_path_exists a (files s) \<and> \<not> os_path_exists (a @ ''.dat'') (files s)"
    using that assms by (simp add: main_def parse_inputs_arg reynolds_eq)
  have returns: "os_path_exists a (files s) \<or> os_path_exists (a @ ''.dat'') (files s)"
    if "\<exists>s'. main xf (prog # a # args) s = Inr s'"
  proof (rule ccontr)
    assume "\<not> (os_path_exists a (files s) \<or> os_path_exists (a @ ''.dat'') (files s))"
    then have "main xf (prog # a # args) s = Inl (ValueError ''Airfoil file not foud'', s)"
      by (intro missing) simp
    with that show False by simp
  qed
  show ?thesis
  proof (intro conjI impI)
    show "\<not> startswith ''NACA0012'' ''naca''" by (rule upper)
    show "\<forall>c\<in>set (drop (length (calls s))
      (calls (final_state (main xf (prog # a # args) s)))). \<not> NACA c \<and> airfoil c = a"
      by (rule mode)
  qed (erule first, erule missing, erule returns)
qed

theorem main_prefix_is_case_sensitive_witness:
  "\<not> startswith ''NACA0012'' ''naca''
   \<and> main (\<lambda>c d. d) [''polargenerator.py'', ''NACA0012'']
        \<lparr>files = ([] :: nat dir), calls = []\<rparr>
      = Inl (ValueError ''Airfoil file not foud'', \<lparr>files = [], calls = []\<rparr>)
   \<and> os_path_exists (''NACA0012'' @ ''.dat'') [(''NACA0012.dat'', 0::nat)]
   \<and> (\<exists>c rest. calls (final_state (main (\<lambda>c d. d) [''polargenerator.py'', ''NACA0012'']
        \<lparr>files = [(''NACA0012.dat'', 0::nat)], calls = []\<rparr>)) = [] @ c # rest
          \<and> \<not> NACA c \<and> airfoil c = ''NACA0012'')"
proof -
  have h: "\<not> startswith ''NACA0012'' ''naca''"
    by (simp add: startswith_def)
  have ex: "os_path_exists (''NACA0012'' @ ''.dat'') [(''NACA0012.dat'', 0::nat)]"
    by (simp add: os_path_exists_def os_listdir_def)
  have nex: "\<not> os_path_exists ''NACA0012'' ([] :: nat dir)"
    "\<not> os_path_exists (''NACA0012'' @ ''.dat'') ([] :: nat dir)"
    by (simp_all add: os_path_exists_def os_listdir_def)
  from main_prefix_is_case_sensitive [OF h, of "\<lparr>files = ([] :: nat dir), calls = []\<rparr>"
      "\<lambda>c d. d" "''polargenerator.py''" "[]"] nex
  have a: "main (\<lambda>c d. d) [''polargenerator.py'', ''NACA0012'']
        \<lparr>files = ([] :: nat dir), calls = []\<rparr>
      = Inl (ValueError ''Airfoil file not foud'', \<lparr>files = [], calls = []\<rparr>)"
    by simp
  from main_prefix_is_case_sensitive [OF h, of "\<lparr>files = [(''NACA0012.dat'', 0::nat)], calls = []\<rparr>"
      "\<lambda>c d. d" "''polargenerator.py''" "[]"] ex
  have b: "\<exists>c rest. calls (final_state (main (\<lambda>c d. d) [''polargenerator.py'', ''NACA0012'']
        \<lparr>files = [(''NACA0012.dat'', 0::nat)], calls = []\<rparr>)) = [] @ c # rest
          \<and> \<not> NACA c \<and> airfoil c = ''NACA0012''"
    by simp
  from h a ex b show ?thesis by blast
qed

end
